theory Spec2Isabelle
  imports Main "HOL-Library.Char_ord" "HOL-Library.List_Lexorder"
begin

section \<open>The fake listing remote of the database tests\<close>

text \<open>
  The source is the test double \<^verbatim>\<open>FakeListRemote\<close>: a class holding an in-memory tree
  (\<^verbatim>\<open>data: any\<close>) and an artificial delay, whose method \<^verbatim>\<open>listPath\<close> lists the
  child keys of a path, filtered by a cursor and cut to a page size.

  Strings are \<^typ>\<open>string\<close>; with \<^verbatim>\<open>Char_ord\<close> and \<^verbatim>\<open>List_Lexorder\<close> the order
  \<open><\<close> on them is the lexicographic order by character code, which is what the
  comparison \<^verbatim>\<open>key > startAfter\<close> of the source computes on strings whose code units
  are below 256. Numbers are integers (the constructor's comment: each leaf is an
  integer).
\<close>

subsection \<open>Values\<close>

text \<open>
  The values that the tree and the variable \<^verbatim>\<open>d\<close> of \<^verbatim>\<open>_dataAtpath\<close> range over:
  \<^verbatim>\<open>undefined\<close>, \<^verbatim>\<open>null\<close>, a boolean, a number, a string, a plain object, or a host
  object (a function or another object of the runtime, known by an identity). A plain
  object is the list of its own properties in creation order (the order of the
  literal); its keys are distinct.
\<close>

datatype jsval =
    Undefined
  | Null
  | Bool bool
  | Num int
  | Str string
  | Obj "(string \<times> jsval) list"
  | Host nat

record FakeListRemote =
  data :: jsval
  delay :: int

text \<open>
  A promise is rejected with the timeout error that \<^verbatim>\<open>listPath\<close> creates, or with an
  exception thrown while the path is resolved (a property accessor that throws).
\<close>

datatype error = Timeout | TypeError

text \<open>
  The runtime on which the code runs is not part of the repository. What the code
  uses of it beyond the own properties of the values above is a parameter:
  \<open>inherited rt d p\<close> is the outcome of \<^verbatim>\<open>d[p]\<close> when \<open>d\<close> has no own property \<open>p\<close> in
  the model, that is the value found along the prototype chain, \<^verbatim>\<open>undefined\<close> when
  there is none, and \<open>None\<close> when an accessor throws; \<open>host_keys rt h\<close> are the own
  enumerable keys of the host object \<open>h\<close>, in the order of \<^verbatim>\<open>Object.keys\<close>.
\<close>

record runtime =
  inherited :: "jsval \<Rightarrow> string \<Rightarrow> jsval option"
  host_keys :: "nat \<Rightarrow> string list"

text \<open>Truthiness, as tested by \<^verbatim>\<open>if (d)\<close> and \<^verbatim>\<open>d && ...\<close>.\<close>

fun truthy :: "jsval \<Rightarrow> bool" where
  "truthy Undefined = False"
| "truthy Null = False"
| "truthy (Bool b) = b"
| "truthy (Num n) = (n \<noteq> 0)"
| "truthy (Str s) = (s \<noteq> [])"
| "truthy (Obj kvs) = True"
| "truthy (Host h) = True"

subsection \<open>Object.keys\<close>

text \<open>
  \<^verbatim>\<open>Object.keys\<close> enumerates the own properties of an object with the array indices
  first, in ascending numeric order, and the other keys after them in creation order.
  An array index is the canonical decimal numeral of an integer from 0 to \<open>2^32 - 2\<close>.
  The keys of a string are the indices of its characters, as decimal numerals. On a
  number or a boolean \<^verbatim>\<open>Object.keys\<close> is the empty array. On \<^verbatim>\<open>undefined\<close> and \<^verbatim>\<open>null\<close>
  it throws; \<^verbatim>\<open>listPath\<close> calls it on truthy values only, and the model gives the
  empty list there.
\<close>

definition is_digit :: "char \<Rightarrow> bool" where
  "is_digit c = (CHR ''0'' \<le> c \<and> c \<le> CHR ''9'')"

definition index_val :: "string \<Rightarrow> int" where
  "index_val s = foldl (\<lambda>acc c. 10 * acc + (of_char c - 48)) 0 s"

definition is_array_index :: "string \<Rightarrow> bool" where
  "is_array_index s =
     (s \<noteq> [] \<and> list_all is_digit s \<and> (length s = 1 \<or> CHR ''1'' \<le> hd s)
      \<and> index_val s < 4294967295)"

definition digit_char :: "nat \<Rightarrow> char" where
  "digit_char n = ''0123456789'' ! n"

fun dec :: "nat \<Rightarrow> string" where
  "dec n = (if n < 10 then [digit_char n] else dec (n div 10) @ [digit_char (n mod 10)])"

fun Object_keys :: "runtime \<Rightarrow> jsval \<Rightarrow> string list" where
  "Object_keys rt (Obj kvs) =
     (let ks = map fst kvs
      in sort_key index_val (filter is_array_index ks)
         @ filter (\<lambda>k. \<not> is_array_index k) ks)"
| "Object_keys rt (Str s) = map dec [0..<length s]"
| "Object_keys rt (Host h) = host_keys rt h"
| "Object_keys rt v = []"

text \<open>
  Property access \<^verbatim>\<open>d[p]\<close>. An own property of a plain object is returned; a string
  has its characters at its indices and its \<^verbatim>\<open>length\<close>; everything else is looked up
  along the prototype chain by the runtime, and may throw (the exception is recorded
  as a TypeError, which is what the accessors of ECMAScript throw). On \<^verbatim>\<open>undefined\<close>
  and \<^verbatim>\<open>null\<close> the access itself throws a TypeError.
\<close>

definition from_chain :: "jsval option \<Rightarrow> error + jsval" where
  "from_chain r = (case r of None \<Rightarrow> Inl TypeError | Some v \<Rightarrow> Inr v)"

fun get_prop :: "runtime \<Rightarrow> jsval \<Rightarrow> string \<Rightarrow> error + jsval" where
  "get_prop rt Undefined p = Inl TypeError"
| "get_prop rt Null p = Inl TypeError"
| "get_prop rt (Obj kvs) p =
     (case map_of kvs p of
        Some v \<Rightarrow> Inr v
      | None \<Rightarrow> from_chain (inherited rt (Obj kvs) p))"
| "get_prop rt (Str s) p =
     (if is_array_index p \<and> index_val p < int (length s)
      then Inr (Str [s ! nat (index_val p)])
      else if p = ''length'' then Inr (Num (int (length s)))
      else from_chain (inherited rt (Str s) p))"
| "get_prop rt v p = from_chain (inherited rt v p)"

subsection \<open>String and array primitives\<close>

text \<open>\<^verbatim>\<open>s.split(sep)\<close> for a one-character separator: one more piece than separators.\<close>

fun split :: "char \<Rightarrow> string \<Rightarrow> string list" where
  "split sep [] = [[]]"
| "split sep (c # cs) =
     (if c = sep then [] # split sep cs
      else (case split sep cs of [] \<Rightarrow> [[c]] | s # ss \<Rightarrow> (c # s) # ss))"

text \<open>
  \<^verbatim>\<open>xs.slice(0, e)\<close>: the first \<open>e\<close> elements, and for a negative \<open>e\<close> all but the
  last \<open>- e\<close>.
\<close>

definition slice0 :: "'a list \<Rightarrow> int \<Rightarrow> 'a list" where
  "slice0 xs e = (if e < 0 then take (nat (int (length xs) + e)) xs else take (nat e) xs)"

subsection \<open>Resolving a path\<close>

text \<open>
  The body of the loop of \<^verbatim>\<open>_dataAtpath\<close>; the loop, which an exception leaves; and
  the method.
\<close>

definition dataAtpath_step :: "runtime \<Rightarrow> jsval \<Rightarrow> string \<Rightarrow> error + jsval" where
  "dataAtpath_step rt d p =
     (if truthy d \<and> p \<noteq> []
      then (case d of Num n \<Rightarrow> Inr Null | _ \<Rightarrow> get_prop rt d p)
      else Inr d)"

definition dataAtpath_next :: "runtime \<Rightarrow> error + jsval \<Rightarrow> string \<Rightarrow> error + jsval" where
  "dataAtpath_next rt acc p = (case acc of Inl e \<Rightarrow> Inl e | Inr d \<Rightarrow> dataAtpath_step rt d p)"

definition dataAtpath :: "runtime \<Rightarrow> FakeListRemote \<Rightarrow> string \<Rightarrow> error + jsval" where
  "dataAtpath rt this path =
     (let splitedPath = split (CHR ''/'') (drop 1 path)
      in foldl (dataAtpath_next rt) (Inr (data this)) splitedPath)"

subsection \<open>listPath\<close>

text \<open>
  The promise is a value of \<^typ>\<open>error + string list\<close>: \<open>Inl\<close> is a rejection, with
  the timeout error or with the exception that left \<^verbatim>\<open>_dataAtpath\<close>. The latency that
  the method measures with \<^verbatim>\<open>Date.now()\<close> around the artificial delay is an input of
  the model, an integer number of milliseconds. The optional arguments are options.
  The test \<^verbatim>\<open>timeout && latency >= timeout\<close> passes for a timeout that is given and not
  0 (\<open>timed_out\<close> is that test); the test \<^verbatim>\<open>if (startAfter)\<close> for a cursor that is
  given and not the empty string.
\<close>

definition timed_out :: "int option \<Rightarrow> int \<Rightarrow> bool" where
  "timed_out timeout latency =
     (case timeout of None \<Rightarrow> False | Some t \<Rightarrow> t \<noteq> 0 \<and> latency \<ge> t)"

definition listPath ::
  "runtime \<Rightarrow> FakeListRemote \<Rightarrow> int \<Rightarrow> string \<Rightarrow> int \<Rightarrow> string option \<Rightarrow> int option
     \<Rightarrow> error + string list" where
  "listPath rt this latency path numChildren startAfter timeout =
     (if timed_out timeout latency
      then Inl Timeout
      else
        (case dataAtpath rt this path of
           Inl e \<Rightarrow> Inl e
         | Inr d \<Rightarrow>
             if truthy d then
               let keys = Object_keys rt d;
                   keys = (case startAfter of
                             None \<Rightarrow> keys
                           | Some s \<Rightarrow>
                               if s \<noteq> [] then filter (\<lambda>key. key > s) keys else keys);
                   keys = slice0 keys numChildren
               in Inr keys
             else Inr []))"

subsection \<open>Concrete inputs\<close>

text \<open>The store of the test: \<^verbatim>\<open>new FakeListRemote({ 1: 1, 2: 2, 3: 3, 4: 4 })\<close>.\<close>

definition fakeDb :: FakeListRemote where
  "fakeDb = \<lparr>data = Obj [(''1'', Num 1), (''2'', Num 2), (''3'', Num 3), (''4'', Num 4)],
             delay = 0\<rparr>"

text \<open>Further stores.\<close>

definition nestedDb :: FakeListRemote where
  "nestedDb = \<lparr>data = Obj [(''a'', Obj [(''b'', Obj [(''x'', Num 1), (''y'', Num 2)]),
                                          (''c'', Num 5)])],
               delay = 0\<rparr>"

definition emptyKeyDb :: FakeListRemote where
  "emptyKeyDb = \<lparr>data = Obj [('''', Num 1)], delay = 0\<rparr>"

definition unsortedDb :: FakeListRemote where
  "unsortedDb = \<lparr>data = Obj [(''b'', Num 1), (''a'', Num 2)], delay = 0\<rparr>"

definition nineTenDb :: FakeListRemote where
  "nineTenDb = \<lparr>data = Obj [(''9'', Num 1), (''10'', Num 2)], delay = 0\<rparr>"

text \<open>
  A runtime for the concrete evaluations. It has three facts of ECMAScript and nothing
  else: a plain object inherits \<^verbatim>\<open>constructor\<close> from \<^verbatim>\<open>Object.prototype\<close>, the function
  \<^verbatim>\<open>Object\<close> (host object 0); the \<^verbatim>\<open>name\<close> of that function is the string
  \<^verbatim>\<open>"Object"\<close>; its \<^verbatim>\<open>caller\<close> and \<^verbatim>\<open>arguments\<close> are accessors, inherited from
  \<^verbatim>\<open>Function.prototype\<close>, that throw a TypeError. No host object has an enumerable
  key. The theorems below hold for every runtime; this one serves where a closed
  statement needs one.
\<close>

definition fragmentRuntime :: runtime where
  "fragmentRuntime =
     \<lparr>inherited =
        (\<lambda>d p. case d of
                 Obj kvs \<Rightarrow> if p = ''constructor'' then Some (Host 0) else Some Undefined
               | Host h \<Rightarrow>
                   if h = 0 \<and> p = ''name'' then Some (Str ''Object'')
                   else if h = 0 \<and> (p = ''caller'' \<or> p = ''arguments'') then None
                   else Some Undefined
               | _ \<Rightarrow> Some Undefined),
      host_keys = (\<lambda>h. [])\<rparr>"


subsection \<open>Notions of the specification\<close>

text \<open>
  The non-empty segments of a path; the node that a sequence of segments addresses in
  a tree (none when a segment is missing or when the walk would pass through a value
  that is not an object); the child keys of a path as \<^verbatim>\<open>listPath\<close> enumerates them
  before filtering (none when resolving the path throws); and what a call returns
  that would return the given keys: these keys, or the exception that resolving the
  path throws.
\<close>

definition segments :: "string \<Rightarrow> string list" where
  "segments path = filter (\<lambda>p. p \<noteq> []) (split (CHR ''/'') (drop 1 path))"

fun lookup :: "jsval \<Rightarrow> string list \<Rightarrow> jsval option" where
  "lookup v [] = Some v"
| "lookup (Obj kvs) (p # ps) =
     (case map_of kvs p of None \<Rightarrow> None | Some v \<Rightarrow> lookup v ps)"
| "lookup v (p # ps) = None"

definition childKeys :: "runtime \<Rightarrow> FakeListRemote \<Rightarrow> string \<Rightarrow> string list" where
  "childKeys rt this path =
     (case dataAtpath rt this path of
        Inl e \<Rightarrow> []
      | Inr d \<Rightarrow> if truthy d then Object_keys rt d else [])"

definition result_at ::
  "runtime \<Rightarrow> FakeListRemote \<Rightarrow> string \<Rightarrow> string list \<Rightarrow> error + string list" where
  "result_at rt this path keys =
     (case dataAtpath rt this path of Inl e \<Rightarrow> Inl e | Inr d \<Rightarrow> Inr keys)"

subsection \<open>The cursor pager\<close>

text \<open>
  Modelled from the spec: the Cursor Pager (section 4.2), which is not among the
  sources. It calls the listing repeatedly for one path, with \<^verbatim>\<open>startAfter\<close> absent on
  the first call and equal to the previous page's last key afterwards; a page with
  fewer than \<^verbatim>\<open>numChildren\<close> keys ends the enumeration, and the pages are concatenated.
  The pager gives no timeout. The loop need not end, so it runs on fuel: \<open>None\<close> means
  that the fuel ran out before a short page was seen. A failed page ends the
  enumeration with the error.
\<close>

fun pager ::
  "nat \<Rightarrow> runtime \<Rightarrow> FakeListRemote \<Rightarrow> int \<Rightarrow> string \<Rightarrow> int \<Rightarrow> string option
     \<Rightarrow> (error + string list) option" where
  "pager 0 rt this latency path numChildren cursor = None"
| "pager (Suc fuel) rt this latency path numChildren cursor =
     (case listPath rt this latency path numChildren cursor None of
        Inl e \<Rightarrow> Some (Inl e)
      | Inr page \<Rightarrow>
          if page = [] \<or> int (length page) < numChildren then Some (Inr page)
          else (case pager fuel rt this latency path numChildren (Some (last page)) of
                  None \<Rightarrow> None
                | Some (Inl e) \<Rightarrow> Some (Inl e)
                | Some (Inr rest) \<Rightarrow> Some (Inr (page @ rest))))"

text \<open>
  The cursor after a page, under the same discipline: the last key of the page, and the
  cursor as it was when the page has no key.
\<close>

definition next_cursor :: "string option \<Rightarrow> string list \<Rightarrow> string option" where
  "next_cursor cursor page = (if page = [] then cursor else Some (last page))"

text \<open>
  The first \<open>k\<close> pages that successive calls return under that discipline, starting
  from a cursor (no timeout is given; a failed call ends the sequence).
\<close>

fun pages ::
  "nat \<Rightarrow> runtime \<Rightarrow> FakeListRemote \<Rightarrow> int \<Rightarrow> string \<Rightarrow> int \<Rightarrow> string option
     \<Rightarrow> string list list" where
  "pages 0 rt this latency path numChildren cursor = []"
| "pages (Suc k) rt this latency path numChildren cursor =
     (case listPath rt this latency path numChildren cursor None of
        Inl e \<Rightarrow> []
      | Inr page \<Rightarrow>
          page # pages k rt this latency path numChildren (next_cursor cursor page))"

text \<open>The keys of a key list that a cursor leaves, as \<^verbatim>\<open>listPath\<close> filters them.\<close>

definition keysAfter :: "string option \<Rightarrow> string list \<Rightarrow> string list" where
  "keysAfter cursor keys =
     (case cursor of
        None \<Rightarrow> keys
      | Some s \<Rightarrow> if s \<noteq> [] then filter (\<lambda>key. key > s) keys else keys)"

section \<open>The chunked delete orchestrator\<close>

text \<open>
  Only the fake Listing Client is among the sources. The Delete Transport, the
  Retry/Backoff Policy and the Chunked Delete Orchestrator are modelled from sections
  3, 4.3, 4.4 and 4.5 of the specification. A step of the model is one remote call,
  from its issue to its outcome, by the worker that holds a pending piece of work; the
  schedule says which piece of pending work is served next, so that calls for
  different paths interleave in every order. The concurrency tokens bound how many
  calls overlap in time and the backoff delays when a retry is issued; neither changes
  which calls are made for a path nor their order, and they are left out, as is
  cancellation.
\<close>

text \<open>
  Modelled from the spec: the result of the Delete Transport (4.3, 6) and the error
  kinds of section 7.
\<close>

datatype error_kind = TimeoutError | TransientServiceError | PermissionError | NotFoundError

datatype delete_result = Success | PayloadTooLarge | Error error_kind

text \<open>
  Modelled from the spec: the Retry/Backoff Policy (4.4, 7). Timeouts and transient
  service errors are retryable, permission and not-found errors are fatal.
\<close>

fun retryable :: "error_kind \<Rightarrow> bool" where
  "retryable TimeoutError = True"
| "retryable TransientServiceError = True"
| "retryable PermissionError = False"
| "retryable NotFoundError = False"

text \<open>
  Modelled from the spec: the same policy for a failed listing call (4.4). A timeout is
  retryable; an exception is not.
\<close>

fun listing_retryable :: "error \<Rightarrow> bool" where
  "listing_retryable Timeout = True"
| "listing_retryable TypeError = False"

text \<open>
  Modelled from the spec: a Path (3) is a sequence of segments, printed with slashes.
\<close>

definition print_path :: "string list \<Rightarrow> string" where
  "print_path p = (if p = [] then ''/'' else concat (map (\<lambda>s. CHR ''/'' # s) p))"

text \<open>
  Modelled from the spec: the pending work of the orchestrator (3, 4.5). A delete job
  is a path with its attempt count. A job that was fanned out leaves the enumeration
  of its children behind: the path, the cursor of the Cursor Pager (4.2), the attempt
  count of the next page and the number of children seen so far.
\<close>

datatype task =
    DeleteTask "string list" nat
  | ListTask "string list" "string option" nat nat

text \<open>
  Modelled from the spec: what a run does, in order: the remote calls (a delete attempt
  with its attempt count and result, a listing call with its cursor) and the events of
  steps 3 and 4 of section 4.5.
\<close>

datatype event =
    DeleteCall "string list" nat delete_result
  | ListCall "string list" "string option"
  | PathDeleted "string list"
  | PathFannedOut "string list" nat

text \<open>Modelled from the spec: the configuration surface of section 6 that the model uses.\<close>

record config =
  max_attempts :: nat
  page_size :: int
  call_timeout :: "int option"

text \<open>
  Modelled from the spec: the two remote collaborators (6). Their answers may change
  with time, so they take the number of calls made so far; the listing has the
  signature of \<^verbatim>\<open>listPath\<close>.
\<close>

record remote =
  deleteSubtree :: "nat \<Rightarrow> string \<Rightarrow> delete_result"
  listing :: "nat \<Rightarrow> string \<Rightarrow> int \<Rightarrow> string option \<Rightarrow> int option \<Rightarrow> error + string list"

text \<open>
  Modelled from the spec: the state of a run (4.5): the work queue, what happened so
  far, the failure set, and the number of calls made.
\<close>

record orchestrator =
  queue :: "task list"
  trace :: "event list"
  failures :: "string list list"
  tick :: nat

text \<open>
  Modelled from the spec: the per-path algorithm (4.5, steps 2 to 6) for one piece of
  work: the work that replaces it, the calls and events, and the paths added to the
  failure set. A delete that succeeds emits the deleted event. PayloadTooLarge is not
  retried: the job is fanned out, and the enumeration of its children starts with no
  cursor. A retryable failure re-enqueues the job with one more attempt while attempts
  remain, and fails it otherwise; a fatal failure fails it at once. A listing page
  enqueues a delete job for every child key observed; a page with fewer than
  \<^verbatim>\<open>numChildren\<close> keys ends the enumeration, a full page continues it after its last
  key; a listing call that fails is retried or fails the job by the same policy.
\<close>

definition effect ::
  "config \<Rightarrow> remote \<Rightarrow> nat \<Rightarrow> task \<Rightarrow> task list \<times> event list \<times> string list list" where
  "effect cfg r t w =
     (case w of
        DeleteTask p a \<Rightarrow>
          (case deleteSubtree r t (print_path p) of
             Success \<Rightarrow> ([], [DeleteCall p a Success, PathDeleted p], [])
           | PayloadTooLarge \<Rightarrow> ([ListTask p None 0 0], [DeleteCall p a PayloadTooLarge], [])
           | Error k \<Rightarrow>
               if retryable k \<and> Suc a < max_attempts cfg
               then ([DeleteTask p (Suc a)], [DeleteCall p a (Error k)], [])
               else ([], [DeleteCall p a (Error k)], [p]))
      | ListTask p c a n \<Rightarrow>
          (case listing r t (print_path p) (page_size cfg) c (call_timeout cfg) of
             Inl e \<Rightarrow>
               if listing_retryable e \<and> Suc a < max_attempts cfg
               then ([ListTask p c (Suc a) n], [ListCall p c], [])
               else ([], [ListCall p c], [p])
           | Inr page \<Rightarrow>
               let kids = map (\<lambda>k. DeleteTask (p @ [k]) 0) page;
                   n' = n + length page
               in if page = [] \<or> int (length page) < page_size cfg
                  then (kids, [ListCall p c, PathFannedOut p n'], [])
                  else (kids @ [ListTask p (Some (last page)) 0 n'], [ListCall p c], [])))"

text \<open>
  Modelled from the spec: one step of a run (4.5, step 1): the piece of work at
  position \<open>i\<close> of the queue is taken and replaced by the outcome of its call.
\<close>

definition step :: "config \<Rightarrow> remote \<Rightarrow> nat \<Rightarrow> orchestrator \<Rightarrow> orchestrator" where
  "step cfg r i s =
     (if i < length (queue s)
      then (case effect cfg r (tick s) (queue s ! i) of
              (new, evs, fails) \<Rightarrow>
                s\<lparr>queue := take i (queue s) @ drop (Suc i) (queue s) @ new,
                  trace := trace s @ evs,
                  failures := failures s @ fails,
                  tick := Suc (tick s)\<rparr>)
      else s)"





text \<open>
  The paths of the delete jobs and the enumerations in a queue; the paths on which a
  trace has a delete attempt, a delete attempt answered PayloadTooLarge, a listing
  call.
\<close>

fun delete_paths :: "task list \<Rightarrow> string list list" where
  "delete_paths [] = []"
| "delete_paths (DeleteTask p a # ws) = p # delete_paths ws"
| "delete_paths (ListTask p c a n # ws) = delete_paths ws"

fun list_tasks :: "task list \<Rightarrow> (string list \<times> string option) list" where
  "list_tasks [] = []"
| "list_tasks (DeleteTask p a # ws) = list_tasks ws"
| "list_tasks (ListTask p c a n # ws) = (p, c) # list_tasks ws"


fun too_large_on :: "event \<Rightarrow> string list option" where
  "too_large_on (DeleteCall p a PayloadTooLarge) = Some p"
| "too_large_on e = None"

fun listed_on :: "event \<Rightarrow> string list option" where
  "listed_on (ListCall p c) = Some p"
| "listed_on e = None"


fun unlisted :: "event list \<Rightarrow> string list list" where
  "unlisted [] = []"
| "unlisted (e # es) =
     (case too_large_on e of
        Some p \<Rightarrow> if Some p \<in> set (map listed_on es) then unlisted es else p # unlisted es
      | None \<Rightarrow> unlisted es)"


definition too_large :: "event list \<Rightarrow> string list set" where
  "too_large es = {p. Some p \<in> set (map too_large_on es)}"

definition listed :: "event list \<Rightarrow> string list set" where
  "listed es = {p. Some p \<in> set (map listed_on es)}"






section \<open>Properties of listPath\<close>

lemmas eval_defs = listPath_def timed_out_def fakeDb_def dataAtpath_def dataAtpath_step_def
  dataAtpath_next_def from_chain_def slice0_def is_array_index_def index_val_def
  is_digit_def childKeys_def segments_def result_at_def

subsection \<open>The scenarios of the test\<close>

text \<open>
  C6: on the store whose root has the four children \<^verbatim>\<open>"1"\<close>, \<^verbatim>\<open>"2"\<close>, \<^verbatim>\<open>"3"\<close>,
  \<^verbatim>\<open>"4"\<close>, the six listings of the specification return exactly the stated arrays
  (no timeout is given, so the latency does not matter; the root is resolved without
  a property access, so the runtime does not matter).
\<close>

theorem listPath_scenarios:
  "listPath rt fakeDb latency ''/'' 4 None None = Inr [''1'', ''2'', ''3'', ''4'']
   \<and> listPath rt fakeDb latency ''/'' 2 None None = Inr [''1'', ''2'']
   \<and> listPath rt fakeDb latency ''/'' 4 (Some ''2'') None = Inr [''3'', ''4'']
   \<and> listPath rt fakeDb latency ''/'' 4 (Some ''4'') None = Inr []
   \<and> listPath rt fakeDb latency ''/'' 1 (Some ''3'') None = Inr [''4'']
   \<and> listPath rt fakeDb latency ''/'' 3 (Some ''4'') None = Inr []"
  by (simp add: eval_defs)

theorem listPath_scenarios_witness:
  "listPath fragmentRuntime fakeDb 0 ''/'' 4 (Some ''2'') None = Inr [''3'', ''4'']
   \<and> listPath fragmentRuntime fakeDb 0 ''/'' 1 (Some ''3'') None = Inr [''4'']"
  using listPath_scenarios [of fragmentRuntime 0] by simp

subsection \<open>Empty path segments\<close>

lemma split_not_Nil: "split sep xs \<noteq> []"
  by (induction xs) (auto split: list.splits)

lemma split_append_sep: "split sep (xs @ sep # ys) = split sep xs @ split sep ys"
proof (induction xs)
  case Nil
  show ?case by simp
next
  case (Cons c cs)
  then show ?case using split_not_Nil [of sep cs]
    by (cases "split sep cs") auto
qed

lemma next_empty_segment: "dataAtpath_next rt acc [] = acc"
  by (cases acc) (simp_all add: dataAtpath_next_def dataAtpath_step_def)

lemma foldl_next_filter:
  "foldl (dataAtpath_next rt) acc (filter (\<lambda>p. p \<noteq> []) ps) = foldl (dataAtpath_next rt) acc ps"
  by (induction ps arbitrary: acc) (simp_all add: next_empty_segment)

lemma dataAtpath_segments:
  "dataAtpath rt this path = foldl (dataAtpath_next rt) (Inr (data this)) (segments path)"
  by (simp add: dataAtpath_def segments_def foldl_next_filter)

lemma listPath_cong_path:
  "dataAtpath rt this p = dataAtpath rt this q \<Longrightarrow>
   listPath rt this latency p n sa t = listPath rt this latency q n sa t"
  by (simp add: listPath_def)

lemma segments_trailing: "segments (path @ ''/'') = segments path"
proof (cases path)
  case Nil
  then show ?thesis by (simp add: segments_def)
next
  case (Cons c cs)
  have "split (CHR ''/'') (cs @ CHR ''/'' # []) = split (CHR ''/'') cs @ [[]]"
    using split_append_sep [of "CHR ''/''" cs "[]"] by simp
  with Cons show ?thesis by (simp add: segments_def)
qed

lemma segments_repeated: "segments (p @ ''//'' @ q) = segments (p @ ''/'' @ q)"
proof (cases p)
  case Nil
  then show ?thesis by (simp add: segments_def)
next
  case (Cons c cs)
  have "split (CHR ''/'') (cs @ CHR ''/'' # (CHR ''/'' # q))
          = split (CHR ''/'') cs @ [] # split (CHR ''/'') q"
    using split_append_sep [of "CHR ''/''" cs "CHR ''/'' # q"] by simp
  moreover have "split (CHR ''/'') (cs @ CHR ''/'' # q)
          = split (CHR ''/'') cs @ split (CHR ''/'') q"
    by (rule split_append_sep)
  ultimately show ?thesis using Cons by (simp add: segments_def)
qed

text \<open>
  C9: empty path segments are ignored. A trailing slash and a repeated slash do not
  change what \<^verbatim>\<open>listPath\<close> returns; more generally two paths with the same non-empty
  segments are listed alike; and the path \<^verbatim>\<open>"/"\<close> resolves to the root of the tree.
\<close>

theorem listPath_empty_segments:
  "listPath rt this latency (path @ ''/'') numChildren startAfter timeout
     = listPath rt this latency path numChildren startAfter timeout
   \<and> listPath rt this latency (p @ ''//'' @ q) numChildren startAfter timeout
     = listPath rt this latency (p @ ''/'' @ q) numChildren startAfter timeout
   \<and> (segments path = segments path' \<longrightarrow>
        listPath rt this latency path numChildren startAfter timeout
        = listPath rt this latency path' numChildren startAfter timeout)
   \<and> dataAtpath rt this ''/'' = Inr (data this)"
proof -
  have "dataAtpath rt this (path @ ''/'') = dataAtpath rt this path"
    by (simp only: dataAtpath_segments segments_trailing)
  moreover have "dataAtpath rt this (p @ ''//'' @ q) = dataAtpath rt this (p @ ''/'' @ q)"
    by (simp only: dataAtpath_segments segments_repeated)
  moreover have "segments path = segments path'
      \<longrightarrow> dataAtpath rt this path = dataAtpath rt this path'"
    by (simp add: dataAtpath_segments)
  moreover have "dataAtpath rt this ''/'' = Inr (data this)"
    by (simp add: dataAtpath_def dataAtpath_next_def dataAtpath_step_def)
  ultimately show ?thesis
    using listPath_cong_path by blast
qed

theorem listPath_empty_segments_witness:
  "listPath fragmentRuntime nestedDb 0 ''/a/'' 5 None None = Inr [''b'', ''c'']
   \<and> listPath fragmentRuntime nestedDb 0 ''/a'' 5 None None = Inr [''b'', ''c'']
   \<and> listPath fragmentRuntime nestedDb 0 ''/a//b'' 5 None None = Inr [''x'', ''y'']
   \<and> listPath fragmentRuntime nestedDb 0 ''/a/b'' 5 None None = Inr [''x'', ''y'']
   \<and> segments ''//a/b//'' = segments ''/a/b''
   \<and> listPath fragmentRuntime nestedDb 0 ''//a/b//'' 5 None None = Inr [''x'', ''y'']"
  using listPath_empty_segments [where rt = fragmentRuntime and this = nestedDb
      and latency = 0 and path = "''/a''" and numChildren = 5 and startAfter = None
      and timeout = None and p = "''/a''" and q = "''b''"]
    listPath_empty_segments [where rt = fragmentRuntime and this = nestedDb
      and latency = 0 and path = "''/a/b''" and numChildren = 5 and startAfter = None
      and timeout = None and path' = "''//a/b//''"]
  by (simp add: eval_defs nestedDb_def)

subsection \<open>The empty cursor\<close>

lemma listPath_childKeys:
  "\<not> timed_out timeout latency \<Longrightarrow>
   listPath rt this latency path numChildren startAfter timeout =
     result_at rt this path
       (slice0 (keysAfter startAfter (childKeys rt this path)) numChildren)"
  by (auto simp: listPath_def childKeys_def result_at_def keysAfter_def Let_def slice0_def
        split: option.splits sum.splits)



subsection \<open>Filter first, limit second\<close>

lemma Nil_less_string: "k \<noteq> [] \<Longrightarrow> [] < (k::string)"
  by (cases k) simp_all

lemma filter_Nil_less: "[] \<notin> set ks \<Longrightarrow> filter (\<lambda>key. [] < key) ks = (ks::string list)"
  by (induction ks) (auto simp: Nil_less_string)

text \<open>
  C1, as stated, fails for the empty cursor on a node that has the empty string as a
  key: the test \<^verbatim>\<open>if (startAfter)\<close> skips the filter, and the key \<^verbatim>\<open>""\<close>, which is
  not greater than the cursor \<^verbatim>\<open>""\<close>, is returned.
\<close>

theorem empty_key_cursor_counterexample:
  "listPath fragmentRuntime emptyKeyDb 0 ''/'' 1 (Some '''') None = Inr ['''']
   \<and> \<not> ('''' < (''''::string))"
  by (simp add: eval_defs emptyKeyDb_def)

text \<open>
  C1, amended: for every tree, path, \<^verbatim>\<open>numChildren > 0\<close> and every cursor that is not
  the empty string (and for the empty cursor as well when the node has no empty key),
  a call that does not time out returns the first \<^verbatim>\<open>numChildren\<close> keys of the key
  list filtered by \<^verbatim>\<open>key > startAfter\<close> (or is rejected, when resolving the path
  throws): the filter is applied before the limit, every returned key is strictly
  greater than the cursor, and there are at most \<^verbatim>\<open>numChildren\<close> of them.
\<close>

theorem listPath_filter_then_limit:
  assumes "0 < numChildren" and "\<not> timed_out timeout latency"
      and "s \<noteq> [] \<or> [] \<notin> set (childKeys rt this path)"
  shows "listPath rt this latency path numChildren (Some s) timeout
           = result_at rt this path
               (take (nat numChildren) (filter (\<lambda>key. s < key) (childKeys rt this path)))
         \<and> (\<forall>keys. listPath rt this latency path numChildren (Some s) timeout = Inr keys \<longrightarrow>
               keys = take (nat numChildren) (filter (\<lambda>key. s < key) (childKeys rt this path))
               \<and> (\<forall>key \<in> set keys. s < key)
               \<and> int (length keys) \<le> numChildren)"
proof -
  let ?f = "filter (\<lambda>key. s < key) (childKeys rt this path)"
  have "keysAfter (Some s) (childKeys rt this path) = ?f"
    using assms(3) filter_Nil_less [of "childKeys rt this path"] by (auto simp: keysAfter_def)
  then have eq: "listPath rt this latency path numChildren (Some s) timeout
               = result_at rt this path (take (nat numChildren) ?f)"
    using assms(1,2) by (simp add: listPath_childKeys slice0_def)
  have gt: "\<forall>key \<in> set (take (nat numChildren) ?f). s < key"
    by (auto dest: in_set_takeD)
  have len: "int (length (take (nat numChildren) ?f)) \<le> numChildren"
    using assms(1) by simp
  have "keys = take (nat numChildren) ?f"
    if "listPath rt this latency path numChildren (Some s) timeout = Inr keys" for keys
    using that unfolding eq by (simp add: result_at_def split: sum.splits)
  with eq gt len show ?thesis by blast
qed

theorem listPath_filter_then_limit_witness:
  "listPath fragmentRuntime fakeDb 3 ''/'' 2 (Some ''1'') (Some 10) = Inr [''2'', ''3'']
   \<and> take 2 (filter (\<lambda>key. ''1'' < key) (childKeys fragmentRuntime fakeDb ''/''))
       = [''2'', ''3'']
   \<and> filter (\<lambda>key. ''1'' < key) (take 2 (childKeys fragmentRuntime fakeDb ''/'')) = [''2'']"
proof -
  have a: "(0::int) < 2" by simp
  have b: "\<not> timed_out (Some 10) 3" by (simp add: timed_out_def)
  have c: "''1'' \<noteq> [] \<or> [] \<notin> set (childKeys fragmentRuntime fakeDb ''/'')" by simp
  show ?thesis
    using listPath_filter_then_limit [OF a b c]
    by (simp add: eval_defs)
qed

subsection \<open>The timeout check\<close>

text \<open>
  C5, as stated, fails for a timeout of 0: it is provided, the latency 5 is at least as
  long, and yet the call resolves with the keys, because the guard
  \<^verbatim>\<open>timeout && latency >= timeout\<close> treats 0 as no timeout.
\<close>

theorem listPath_zero_timeout_counterexample:
  "listPath fragmentRuntime fakeDb 5 ''/'' 4 None (Some 0) = Inr [''1'', ''2'', ''3'', ''4'']
   \<and> (0::int) \<le> 5"
  by (simp add: eval_defs)

text \<open>
  C5, amended: for every call with a timeout that is not 0, if the measured latency is
  at least the timeout, the call fails with the timeout error (which carries no keys);
  it returns keys only when the latency is below the timeout.
\<close>

theorem listPath_timeout:
  "t \<noteq> 0 \<Longrightarrow>
   (t \<le> latency \<longrightarrow>
      listPath rt this latency path numChildren startAfter (Some t) = Inl Timeout)
   \<and> (\<forall>keys. listPath rt this latency path numChildren startAfter (Some t) = Inr keys
          \<longrightarrow> latency < t)"
  by (auto simp: listPath_def timed_out_def Let_def)

theorem listPath_timeout_witness:
  "listPath fragmentRuntime fakeDb 10 ''/'' 4 None (Some 10) = Inl Timeout
   \<and> listPath fragmentRuntime fakeDb 9 ''/'' 4 None (Some 10) = Inr [''1'', ''2'', ''3'', ''4'']
   \<and> (9::int) < 10"
proof -
  have a: "(10::int) \<noteq> 0" by simp
  show ?thesis
    using listPath_timeout [OF a, of 10 fragmentRuntime fakeDb "''/''" 4 None]
      listPath_timeout [OF a, of 9 fragmentRuntime fakeDb "''/''" 4 None]
    by (simp add: eval_defs)
qed

text \<open>
  The timeout error comes from the timeout check alone: resolving the path never
  produces it, and with the timeout absent or 0 no call fails with it, whatever the
  latency.
\<close>

lemma foldl_next_no_Timeout:
  "acc \<noteq> Inl Timeout \<Longrightarrow> foldl (dataAtpath_next rt) acc ps \<noteq> Inl Timeout"
proof (induction ps arbitrary: acc)
  case Nil
  then show ?case by simp
next
  case (Cons p ps)
  have "dataAtpath_next rt acc p \<noteq> Inl Timeout"
  proof (cases acc)
    case (Inl e)
    with Cons.prems show ?thesis by (simp add: dataAtpath_next_def)
  next
    case (Inr d)
    then show ?thesis
      by (cases d)
        (auto simp: dataAtpath_next_def dataAtpath_step_def from_chain_def
          split: option.splits)
  qed
  from Cons.IH [OF this] show ?case by simp
qed

lemma listPath_no_timeout_error:
  "timeout = None \<or> timeout = Some 0 \<Longrightarrow>
   listPath rt this latency path numChildren startAfter timeout \<noteq> Inl Timeout"
proof -
  assume t: "timeout = None \<or> timeout = Some 0"
  have "dataAtpath rt this path \<noteq> Inl Timeout"
    unfolding dataAtpath_def Let_def by (rule foldl_next_no_Timeout) simp
  with t show ?thesis
    by (cases "dataAtpath rt this path") (auto simp: listPath_def timed_out_def Let_def)
qed

subsection \<open>Paths through inherited properties\<close>

text \<open>
  C4: the code does not do what the claim says at a path whose segments name inherited
  properties. On the store of the test the path \<^verbatim>\<open>/constructor/name\<close> does not exist
  in the tree, yet \<^verbatim>\<open>d[p]\<close> finds the function \<^verbatim>\<open>Object\<close> and its name, the string
  \<^verbatim>\<open>"Object"\<close>, and the call returns four of the six indices of that string instead of
  the empty array; and at \<^verbatim>\<open>/constructor/caller\<close>, which does not exist either, the
  call fails, because the accessor throws. This holds on every runtime with these
  properties, as ECMAScript has them.
\<close>

theorem listPath_inherited_property:
  assumes "inherited rt (data fakeDb) ''constructor'' = Some (Host f)"
      and "inherited rt (Host f) ''name'' = Some (Str ''Object'')"
      and "inherited rt (Host f) ''caller'' = None"
  shows "lookup (data fakeDb) (segments ''/constructor/name'') = None
         \<and> listPath rt fakeDb latency ''/constructor/name'' 4 None None
             = Inr [''0'', ''1'', ''2'', ''3'']
         \<and> lookup (data fakeDb) (segments ''/constructor/caller'') = None
         \<and> listPath rt fakeDb latency ''/constructor/caller'' 4 None None = Inl TypeError"
proof -
  have "dataAtpath rt fakeDb ''/constructor/name'' = Inr (Str ''Object'')"
    using assms(1,2)
    by (simp add: dataAtpath_def dataAtpath_next_def dataAtpath_step_def from_chain_def
          fakeDb_def)
  then have "listPath rt fakeDb latency ''/constructor/name'' 4 None None
               = Inr [''0'', ''1'', ''2'', ''3'']"
    by (simp add: listPath_def timed_out_def slice0_def digit_char_def)
  moreover have "dataAtpath rt fakeDb ''/constructor/caller'' = Inl TypeError"
    using assms(1,3)
    by (simp add: dataAtpath_def dataAtpath_next_def dataAtpath_step_def from_chain_def
          fakeDb_def)
  then have "listPath rt fakeDb latency ''/constructor/caller'' 4 None None = Inl TypeError"
    by (simp add: listPath_def timed_out_def)
  moreover have "lookup (data fakeDb) (segments ''/constructor/name'') = None"
    and "lookup (data fakeDb) (segments ''/constructor/caller'') = None"
    by (simp_all add: fakeDb_def segments_def)
  ultimately show ?thesis by blast
qed

theorem listPath_inherited_property_witness:
  "listPath fragmentRuntime fakeDb 0 ''/constructor/name'' 4 None None
     = Inr [''0'', ''1'', ''2'', ''3'']
   \<and> listPath fragmentRuntime fakeDb 0 ''/constructor/caller'' 4 None None = Inl TypeError
   \<and> lookup (data fakeDb) (segments ''/constructor/name'') = None"
proof -
  have a: "inherited fragmentRuntime (data fakeDb) ''constructor'' = Some (Host 0)"
    by (simp add: fragmentRuntime_def fakeDb_def)
  have b: "inherited fragmentRuntime (Host 0) ''name'' = Some (Str ''Object'')"
    by (simp add: fragmentRuntime_def)
  have c: "inherited fragmentRuntime (Host 0) ''caller'' = None"
    by (simp add: fragmentRuntime_def)
  from listPath_inherited_property [OF a b c, of 0] show ?thesis by simp
qed

text \<open>
  C8: the code does not do what the claim says at the same kind of path. With the
  timeout absent or 0, the call on \<^verbatim>\<open>/constructor/caller\<close> does not resolve: it is
  rejected, not with the timeout error but with the TypeError of the accessor, whatever
  the latency.
\<close>

theorem listPath_rejects_without_timeout:
  assumes "inherited rt (data fakeDb) ''constructor'' = Some (Host f)"
      and "inherited rt (Host f) ''caller'' = None"
  shows "listPath rt fakeDb latency ''/constructor/caller'' numChildren startAfter None
           = Inl TypeError
         \<and> listPath rt fakeDb latency ''/constructor/caller'' numChildren startAfter (Some 0)
           = Inl TypeError"
proof -
  have "dataAtpath rt fakeDb ''/constructor/caller'' = Inl TypeError"
    using assms
    by (simp add: dataAtpath_def dataAtpath_next_def dataAtpath_step_def from_chain_def
          fakeDb_def)
  then show ?thesis by (simp add: listPath_def timed_out_def)
qed

theorem listPath_rejects_without_timeout_witness:
  "listPath fragmentRuntime fakeDb 1000 ''/constructor/caller'' 4 None None = Inl TypeError
   \<and> listPath fragmentRuntime fakeDb 1000 ''/constructor/caller'' 4 None (Some 0)
       = Inl TypeError"
proof -
  have a: "inherited fragmentRuntime (data fakeDb) ''constructor'' = Some (Host 0)"
    by (simp add: fragmentRuntime_def fakeDb_def)
  have c: "inherited fragmentRuntime (Host 0) ''caller'' = None"
    by (simp add: fragmentRuntime_def)
  from listPath_rejects_without_timeout [OF a c, of 1000 4 None] show ?thesis by simp
qed

subsection \<open>Pagination with cursors\<close>

lemma sorted_le_last:
  assumes "sorted_wrt (<) (xs::'a::linorder list)" and "x \<in> set xs"
  shows "x \<le> last xs"
proof -
  from assms(2) have ne: "xs \<noteq> []" by auto
  then have "sorted_wrt (<) (butlast xs @ [last xs])" using assms(1) by simp
  then have "\<forall>y \<in> set (butlast xs). y < last xs"
    unfolding sorted_wrt_append by simp
  moreover from ne assms(2) have "x \<in> set (butlast xs) \<or> x = last xs"
    by (metis append_butlast_last_id in_set_conv_decomp_first rotate1.simps(2) set_ConsD set_rotate1)
  ultimately show ?thesis by auto
qed

lemma sorted_filter_after_take:
  assumes "sorted_wrt (<) (xs::'a::linorder list)" and "0 < m" and "m \<le> length xs"
  shows "filter (\<lambda>k. last (take m xs) < k) xs = drop m xs"
proof -
  let ?b = "last (take m xs)"
  have ne: "take m xs \<noteq> []" using assms(2,3) by auto
  have s: "sorted_wrt (<) (take m xs @ drop m xs)" using assms(1) by simp
  have s1: "sorted_wrt (<) (take m xs)"
    and cross: "\<forall>x \<in> set (take m xs). \<forall>y \<in> set (drop m xs). x < y"
    using s unfolding sorted_wrt_append by blast+
  have "?b \<in> set (take m xs)" using ne by simp
  with cross have hi: "\<forall>y \<in> set (drop m xs). ?b < y" by blast
  have lo: "\<forall>x \<in> set (take m xs). \<not> ?b < x"
    using sorted_le_last [OF s1] by (auto simp: not_less)
  have "filter (\<lambda>k. ?b < k) (take m xs @ drop m xs) = drop m xs"
    using hi lo by (simp only: filter_append) (simp add: filter_empty_conv)
  then show ?thesis by simp
qed

lemma listPath_keysAfter:
  "listPath rt this latency path numChildren cursor None
     = result_at rt this path (slice0 (keysAfter cursor (childKeys rt this path)) numChildren)"
  by (simp add: listPath_childKeys timed_out_def)

lemma listPath_keysAfter_Inr:
  "dataAtpath rt this path = Inr d \<Longrightarrow>
   listPath rt this latency path numChildren cursor None
     = Inr (slice0 (keysAfter cursor (childKeys rt this path)) numChildren)"
  by (simp add: listPath_keysAfter result_at_def)

lemma listPath_Inr_resolved:
  "listPath rt this latency path numChildren cursor timeout = Inr page \<Longrightarrow>
   \<exists>d. dataAtpath rt this path = Inr d"
  by (cases "dataAtpath rt this path") (auto simp: listPath_def split: if_splits)

lemma keysAfter_subset: "set (keysAfter c ks) \<subseteq> set ks"
  by (auto simp: keysAfter_def split: option.splits)

lemma keysAfter_sorted: "sorted_wrt (<) ks \<Longrightarrow> sorted_wrt (<) (keysAfter c ks)"
  by (auto simp: keysAfter_def sorted_wrt_filter split: option.splits)

lemma keysAfter_greater: "b \<in> set (keysAfter c ks) \<Longrightarrow> b < k \<Longrightarrow> k \<in> set ks \<Longrightarrow>
    k \<in> set (keysAfter c ks)"
  by (auto simp: keysAfter_def split: option.splits if_splits)

text \<open>The cursor taken from a full page leaves exactly the keys after that page.\<close>

lemma keysAfter_next:
  assumes srt: "sorted_wrt (<) ks" and ne: "[] \<notin> set ks"
      and m: "0 < m" "m \<le> length (keysAfter c ks)"
  shows "keysAfter (Some (last (take m (keysAfter c ks)))) ks = drop m (keysAfter c ks)"
proof -
  let ?R = "keysAfter c ks"
  let ?b = "last (take m ?R)"
  have "take m ?R \<noteq> []" using m by auto
  then have "?b \<in> set (take m ?R)" by simp
  then have bR: "?b \<in> set ?R" by (rule in_set_takeD)
  with keysAfter_subset have "?b \<in> set ks" by blast
  with ne have "?b \<noteq> []" by auto
  then have "keysAfter (Some ?b) ks = filter (\<lambda>k. ?b < k) ks"
    by (simp add: keysAfter_def)
  also have "\<dots> = filter (\<lambda>k. ?b < k) (filter (\<lambda>k. k \<in> set ?R) ks)"
    using keysAfter_greater [OF bR] by (auto simp: filter_filter intro: filter_cong)
  also have "filter (\<lambda>k. k \<in> set ?R) ks = ?R"
    by (auto simp: keysAfter_def filter_id_conv split: option.splits intro: filter_cong)
  also have "filter (\<lambda>k. ?b < k) ?R = drop m ?R"
    using keysAfter_sorted [OF srt] m by (rule sorted_filter_after_take)
  finally show ?thesis .
qed

lemma pager_sorted:
  assumes srt: "sorted_wrt (<) (childKeys rt this path)"
      and ne: "[] \<notin> set (childKeys rt this path)"
      and n: "0 < numChildren"
      and res: "dataAtpath rt this path = Inr d"
  shows "length (keysAfter c (childKeys rt this path)) < fuel \<Longrightarrow>
         pager fuel rt this latency path numChildren c
           = Some (Inr (keysAfter c (childKeys rt this path)))"
proof (induction fuel arbitrary: c)
  case 0
  then show ?case by simp
next
  case (Suc fuel)
  let ?K = "childKeys rt this path"
  let ?R = "keysAfter c ?K"
  let ?m = "nat numChildren"
  have page: "listPath rt this latency path numChildren c None = Inr (take ?m ?R)"
    using n by (simp add: listPath_keysAfter_Inr [OF res] slice0_def)
  show ?case
  proof (cases "take ?m ?R = [] \<or> int (length (take ?m ?R)) < numChildren")
    case True
    then have "take ?m ?R = ?R" using n by auto
    with True page show ?thesis by simp
  next
    case False
    then have m: "0 < ?m" "?m \<le> length ?R" using n by auto
    have nxt: "keysAfter (Some (last (take ?m ?R))) ?K = drop ?m ?R"
      using srt ne m by (rule keysAfter_next)
    have "length (drop ?m ?R) < fuel" using Suc.prems m by simp
    then have "pager fuel rt this latency path numChildren (Some (last (take ?m ?R)))
                 = Some (Inr (drop ?m ?R))"
      using Suc.IH [of "Some (last (take ?m ?R))"] nxt by simp
    with False page show ?thesis by simp
  qed
qed

text \<open>
  C2, as stated, fails where \<^verbatim>\<open>Object.keys\<close> does not enumerate the keys in the order
  of the string comparison. On \<^verbatim>\<open>{ 9: 1, 10: 2 }\<close> the keys are \<^verbatim>\<open>["9", "10"]\<close>; with
  pages of one key the first page is \<^verbatim>\<open>["9"]\<close> and the page after \<^verbatim>\<open>"9"\<close> is empty,
  since \<^verbatim>\<open>"10" > "9"\<close> is false: the pager ends and \<^verbatim>\<open>"10"\<close> is never visited.
\<close>

theorem pager_gap_counterexample:
  "childKeys fragmentRuntime nineTenDb ''/'' = [''9'', ''10'']
   \<and> listPath fragmentRuntime nineTenDb 0 ''/'' 1 None None = Inr [''9'']
   \<and> listPath fragmentRuntime nineTenDb 0 ''/'' 1 (Some ''9'') None = Inr []
   \<and> pager 2 fragmentRuntime nineTenDb 0 ''/'' 1 None = Some (Inr [''9''])"
  by (simp add: eval_defs nineTenDb_def numeral_2_eq_2)

text \<open>
  C2, amended: for every tree and path whose child keys are non-empty strings that
  \<^verbatim>\<open>Object.keys\<close> enumerates in strictly increasing order of the string comparison,
  and every \<^verbatim>\<open>numChildren > 0\<close>, paging with the previous page's last key as cursor
  ends (with fuel beyond the number of keys) and its pages, concatenated, are the key
  list of the path: every key once, in order, none missing (when resolving the path
  throws, the first call is rejected and the paging ends with that). And a page with
  fewer than
  \<^verbatim>\<open>numChildren\<close> keys signals exhaustion: the next page under the same discipline is
  empty and the cursor moves no more, so every later page is empty.
\<close>

theorem pager_visits_all:
  assumes "sorted_wrt (<) (childKeys rt this path)"
      and "[] \<notin> set (childKeys rt this path)"
      and "0 < numChildren"
  shows "(length (childKeys rt this path) < fuel \<longrightarrow>
            pager fuel rt this latency path numChildren None
              = Some (result_at rt this path (childKeys rt this path)))
         \<and> distinct (childKeys rt this path)
         \<and> (listPath rt this latency path numChildren cursor None = Inr page
              \<and> int (length page) < numChildren \<longrightarrow>
            listPath rt this latency path numChildren (next_cursor cursor page) None = Inr []
            \<and> next_cursor (next_cursor cursor page) [] = next_cursor cursor page)"
proof -
  let ?K = "childKeys rt this path"
  let ?R = "keysAfter cursor ?K"
  let ?m = "nat numChildren"
  have first: "pager fuel rt this latency path numChildren None
                 = Some (result_at rt this path ?K)"
    if fuel: "length ?K < fuel"
  proof (cases "dataAtpath rt this path")
    case (Inr d)
    from pager_sorted [OF assms Inr, of None fuel latency] fuel Inr
    show ?thesis by (simp add: keysAfter_def result_at_def)
  next
    case (Inl e)
    from fuel obtain f where f: "fuel = Suc f" by (cases fuel) auto
    from Inl have "listPath rt this latency path numChildren None None = Inl e"
      by (simp add: listPath_keysAfter result_at_def)
    with Inl f show ?thesis by (simp add: result_at_def)
  qed
  have second: "listPath rt this latency path numChildren (next_cursor cursor page) None = Inr []"
    if p: "listPath rt this latency path numChildren cursor None = Inr page"
      and short: "int (length page) < numChildren"
  proof (cases "page = []")
    case True
    with p show ?thesis by (simp add: next_cursor_def)
  next
    case False
    from listPath_Inr_resolved [OF p] obtain d where res: "dataAtpath rt this path = Inr d"
      by blast
    from p assms(3) have page: "page = take ?m ?R"
      by (simp add: listPath_keysAfter_Inr [OF res] slice0_def)
    with short assms(3) have R: "page = ?R" by auto
    let ?b = "last page"
    from False have bR: "?b \<in> set ?R" using R by simp
    with keysAfter_subset have "?b \<in> set ?K" by blast
    with assms(2) have "?b \<noteq> []" by auto
    then have "keysAfter (Some ?b) ?K = filter (\<lambda>k. ?b < k) ?K"
      by (simp add: keysAfter_def)
    also have "\<dots> = []"
    proof -
      have "\<not> ?b < k" if "k \<in> set ?K" for k
      proof
        assume "?b < k"
        from keysAfter_greater [OF bR this that] have "k \<in> set ?R" .
        from sorted_le_last [OF keysAfter_sorted [OF assms(1)] this] R \<open>?b < k\<close>
        show False by simp
      qed
      then show ?thesis by (simp add: filter_empty_conv)
    qed
    finally show ?thesis using False
      by (simp add: listPath_keysAfter_Inr [OF res] next_cursor_def slice0_def)
  qed
  have third: "next_cursor (next_cursor cursor page) [] = next_cursor cursor page"
    by (simp add: next_cursor_def)
  have fourth: "distinct ?K" using assms(1) by (simp add: strict_sorted_iff)
  from first second third fourth show ?thesis by blast
qed

theorem pager_visits_all_witness:
  "pager 5 fragmentRuntime fakeDb 0 ''/'' 3 None = Some (Inr [''1'', ''2'', ''3'', ''4''])
   \<and> childKeys fragmentRuntime fakeDb ''/'' = [''1'', ''2'', ''3'', ''4'']
   \<and> listPath fragmentRuntime fakeDb 0 ''/'' 3 (Some ''3'') None = Inr [''4'']
   \<and> listPath fragmentRuntime fakeDb 0 ''/'' 3 (Some ''4'') None = Inr []"
proof -
  have k: "childKeys fragmentRuntime fakeDb ''/'' = [''1'', ''2'', ''3'', ''4'']"
    by (simp add: eval_defs)
  have a: "sorted_wrt (<) (childKeys fragmentRuntime fakeDb ''/'')" by (simp add: k)
  have b: "[] \<notin> set (childKeys fragmentRuntime fakeDb ''/'')" by (simp add: k)
  have c: "(0::int) < 3" by simp
  have p: "listPath fragmentRuntime fakeDb 0 ''/'' 3 (Some ''3'') None = Inr [''4'']"
    by (simp add: eval_defs)
  have r: "result_at fragmentRuntime fakeDb ''/'' [''1'', ''2'', ''3'', ''4'']
             = Inr [''1'', ''2'', ''3'', ''4'']"
    by (simp add: eval_defs)
  show ?thesis
    using pager_visits_all [OF a b c, of 5 0 "Some ''3''" "[''4'']"] k p r
    by (simp add: next_cursor_def)
qed

subsection \<open>Strictly increasing pages\<close>

lemma slice0_prefix: "\<exists>j. slice0 xs e = take j xs"
  by (auto simp: slice0_def)

lemma listPath_page_prefix:
  assumes "listPath rt this latency path numChildren cursor timeout = Inr page"
  shows "\<exists>j. page = take j (keysAfter cursor (childKeys rt this path))"
proof -
  from assms have "\<not> timed_out timeout latency"
    by (auto simp: listPath_def split: if_splits)
  from listPath_childKeys [OF this, of rt this path numChildren cursor] assms
  have "page = slice0 (keysAfter cursor (childKeys rt this path)) numChildren"
    by (simp add: result_at_def split: sum.splits)
  then show ?thesis using slice0_prefix by metis
qed

lemma keysAfter_next_subset:
  assumes "[] \<notin> set ks" and "page = take j (keysAfter c ks)"
  shows "set (keysAfter (next_cursor c page) ks) \<subseteq> set (keysAfter c ks)
         \<and> (\<forall>x \<in> set page. \<forall>y \<in> set (keysAfter (next_cursor c page) ks).
               sorted_wrt (<) ks \<longrightarrow> x < y)"
proof (cases "page = []")
  case True
  then show ?thesis by (simp add: next_cursor_def)
next
  case False
  let ?b = "last page"
  from False have "?b \<in> set page" by simp
  with assms(2) have bR: "?b \<in> set (keysAfter c ks)" by (auto dest: in_set_takeD)
  with keysAfter_subset have "?b \<in> set ks" by blast
  with assms(1) have "?b \<noteq> []" by auto
  then have eq: "keysAfter (next_cursor c page) ks = filter (\<lambda>k. ?b < k) ks"
    using False by (simp add: next_cursor_def keysAfter_def)
  have sub: "set (keysAfter (next_cursor c page) ks) \<subseteq> set (keysAfter c ks)"
    using keysAfter_greater [OF bR] by (auto simp: eq)
  have "x < y" if "x \<in> set page" "y \<in> set (keysAfter (next_cursor c page) ks)"
    "sorted_wrt (<) ks" for x y
  proof -
    have "sorted_wrt (<) page"
      using keysAfter_sorted [OF that(3), of c] assms(2) by (simp add: sorted_wrt_take)
    from sorted_le_last [OF this that(1)] have "x \<le> ?b" .
    moreover from that(2) have "?b < y" by (simp add: eq)
    ultimately show ?thesis by simp
  qed
  with sub show ?thesis by blast
qed

lemma pages_subset:
  assumes "[] \<notin> set (childKeys rt this path)"
  shows "set (concat (pages k rt this latency path numChildren c))
           \<subseteq> set (keysAfter c (childKeys rt this path))"
proof (induction k arbitrary: c)
  case 0
  then show ?case by simp
next
  case (Suc k)
  show ?case
  proof (cases "listPath rt this latency path numChildren c None")
    case (Inl e)
    then show ?thesis by simp
  next
    case p: (Inr page)
    from listPath_page_prefix [OF p] obtain j
      where j: "page = take j (keysAfter c (childKeys rt this path))" by blast
    then have "set page \<subseteq> set (keysAfter c (childKeys rt this path))"
      by (auto dest: in_set_takeD)
    moreover have "set (concat (pages k rt this latency path numChildren (next_cursor c page)))
        \<subseteq> set (keysAfter c (childKeys rt this path))"
      using Suc.IH [of "next_cursor c page"] keysAfter_next_subset [OF assms j] by blast
    ultimately show ?thesis using p by simp
  qed
qed

lemma pages_sorted:
  assumes "sorted_wrt (<) (childKeys rt this path)" and "[] \<notin> set (childKeys rt this path)"
  shows "sorted_wrt (<) (concat (pages k rt this latency path numChildren c))"
proof (induction k arbitrary: c)
  case 0
  then show ?case by simp
next
  case (Suc k)
  show ?case
  proof (cases "listPath rt this latency path numChildren c None")
    case (Inl e)
    then show ?thesis by simp
  next
    case p: (Inr page)
    from listPath_page_prefix [OF p] obtain j
      where j: "page = take j (keysAfter c (childKeys rt this path))" by blast
    have sp: "sorted_wrt (<) page"
      using keysAfter_sorted [OF assms(1), of c] j by (simp add: sorted_wrt_take)
    have "\<forall>x \<in> set page. \<forall>y \<in> set (concat (pages k rt this latency path numChildren
              (next_cursor c page))). x < y"
      using pages_subset [OF assms(2), of k latency numChildren "next_cursor c page"]
        keysAfter_next_subset [OF assms(2) j] assms(1) by blast
    with sp Suc.IH [of "next_cursor c page"] p show ?thesis
      by (simp add: sorted_wrt_append)
  qed
qed

text \<open>
  C3, as stated, fails on a tree whose keys were not created in increasing order: on
  \<^verbatim>\<open>{ b: 1, a: 2 }\<close> the page \<^verbatim>\<open>["b", "a"]\<close> is not increasing, and the next page, after
  \<^verbatim>\<open>"a"\<close>, repeats \<^verbatim>\<open>"b"\<close>.
\<close>

theorem listPath_unsorted_counterexample:
  "listPath fragmentRuntime unsortedDb 0 ''/'' 2 None None = Inr [''b'', ''a'']
   \<and> \<not> sorted_wrt (<) [''b'', ''a'']
   \<and> listPath fragmentRuntime unsortedDb 0 ''/'' 2 (Some ''a'') None = Inr [''b'']"
  by (simp add: eval_defs unsortedDb_def)

text \<open>
  C3, amended: for every tree and path whose child keys are non-empty strings that
  \<^verbatim>\<open>Object.keys\<close> enumerates in strictly increasing order of the string comparison, the
  keys that any call of \<^verbatim>\<open>listPath\<close> returns are strictly increasing, and so is the
  concatenation of any number of successive pages fetched with the previous page's
  last key as cursor: no key is repeated across pages.
\<close>

theorem listPath_strictly_increasing:
  assumes "sorted_wrt (<) (childKeys rt this path)" and "[] \<notin> set (childKeys rt this path)"
  shows "(listPath rt this latency path numChildren cursor timeout = Inr page
            \<longrightarrow> sorted_wrt (<) page)
         \<and> sorted_wrt (<) (concat (pages k rt this latency path numChildren cursor))
         \<and> distinct (concat (pages k rt this latency path numChildren cursor))"
proof -
  have "sorted_wrt (<) page"
    if "listPath rt this latency path numChildren cursor timeout = Inr page"
  proof -
    from listPath_page_prefix [OF that] obtain j
      where "page = take j (keysAfter cursor (childKeys rt this path))" by blast
    then show ?thesis
      using keysAfter_sorted [OF assms(1), of cursor] by (simp add: sorted_wrt_take)
  qed
  moreover have s: "sorted_wrt (<) (concat (pages k rt this latency path numChildren cursor))"
    using assms by (rule pages_sorted)
  moreover from s have "distinct (concat (pages k rt this latency path numChildren cursor))"
    by (simp add: strict_sorted_iff)
  ultimately show ?thesis by blast
qed

theorem listPath_strictly_increasing_witness:
  "listPath fragmentRuntime fakeDb 0 ''/'' 2 (Some ''1'') None = Inr [''2'', ''3'']
   \<and> sorted_wrt (<) [''2'', ''3'']
   \<and> pages 3 fragmentRuntime fakeDb 0 ''/'' 2 None = [[''1'', ''2''], [''3'', ''4''], []]
   \<and> sorted_wrt (<) (concat (pages 3 fragmentRuntime fakeDb 0 ''/'' 2 None))"
proof -
  have k: "childKeys fragmentRuntime fakeDb ''/'' = [''1'', ''2'', ''3'', ''4'']"
    by (simp add: eval_defs)
  have a: "sorted_wrt (<) (childKeys fragmentRuntime fakeDb ''/'')" by (simp add: k)
  have b: "[] \<notin> set (childKeys fragmentRuntime fakeDb ''/'')" by (simp add: k)
  have p: "listPath fragmentRuntime fakeDb 0 ''/'' 2 (Some ''1'') None = Inr [''2'', ''3'']"
    by (simp add: eval_defs)
  have q: "pages 3 fragmentRuntime fakeDb 0 ''/'' 2 None = [[''1'', ''2''], [''3'', ''4''], []]"
    by (simp add: eval_defs next_cursor_def numeral_3_eq_3)
  show ?thesis
    using listPath_strictly_increasing [OF a b, of 0 2 "Some ''1''" None "[''2'', ''3'']" 3] p q
    by simp
qed

section \<open>Properties of the orchestrator\<close>

subsection \<open>Traces\<close>



lemma listed_append: "listed (xs @ ys) = listed xs \<union> listed ys"
  by (auto simp: listed_def)





lemma unlisted_too_large: "set (unlisted es) \<subseteq> too_large es"
proof (induction es)
  case Nil
  show ?case by simp
next
  case (Cons e es)
  then show ?case by (cases "too_large_on e") (auto simp: too_large_def)
qed

subsection \<open>The invariant is kept by every kind of step\<close>





subsection \<open>Steps and runs\<close>

lemma delete_paths_append: "delete_paths (xs @ ys) = delete_paths xs @ delete_paths ys"
  by (induction xs rule: delete_paths.induct) simp_all


lemma delete_paths_kids: "delete_paths (map (\<lambda>k. DeleteTask (q @ [k]) 0) page) = map (\<lambda>k. q @ [k]) page"
  by (induction page) simp_all











lemma list_tasks_Nil: "list_tasks [] = []"
  by simp

subsection \<open>Every pending enumeration is served\<close>












lemma step_enqueues_children:
  assumes "i < length (queue s)" and "queue s ! i = ListTask p c a n"
    and "listing r (tick s) (print_path p) (page_size cfg) c (call_timeout cfg) = Inr page"
  shows "set (map (\<lambda>k. p @ [k]) page) \<subseteq> set (delete_paths (queue (step cfg r i s)))"
  using assms
  by (auto simp: step_def effect_def Let_def delete_paths_append delete_paths_kids)

subsection \<open>PayloadTooLarge in a run\<close>



subsection \<open>The fake Listing Client under the orchestrator\<close>




lemma dec_not_Nil: "dec n \<noteq> []"
  by (subst dec.simps) simp





end
